theory Spec2Isabelle
  imports Complex_Main "HOL-Library.Sublist" "HOL-Library.Product_Lexorder"
begin

section \<open>Strings, errors and the standard library\<close>

text \<open>
  A Python \<open>str\<close> is a sequence of Unicode code points, and \<open>len\<close>, indexing and
  slicing count code points. A string is therefore a list of code points, each a natural
  number; \<open>ascii\<close> writes the ASCII literals of the source.
\<close>

type_synonym str = "nat list"

definition ascii :: "string \<Rightarrow> str" where
  "ascii cs = map of_char cs"

text \<open>The exceptions the library functions can raise.\<close>

datatype error = ValueError | IndexError | KeyError

text \<open>
  The library calls \<open>str.lower\<close>, \<open>str.title\<close>, the regular-expression class
  \<open>\s\<close>, \<open>str.strip\<close>, \<open>html.unescape\<close> and \<open>unicodedata.normalize\<close>. Their
  behaviour on ASCII is fixed below. Beyond ASCII it is given by the tables of the Python
  runtime (the Unicode character database and the HTML entity table), which are not part
  of the repository: every function that depends on them takes them as the parameter
  \<open>L\<close>.

  \<^item> \<open>uni_space c\<close>: the non-ASCII code point \<open>c\<close> is whitespace;
  \<^item> \<open>uni_cased c\<close>: the non-ASCII code point \<open>c\<close> is cased;
  \<^item> \<open>uni_lower s i\<close>: the lowercase form of the non-ASCII code point at index \<open>i\<close>
    of \<open>s\<close> (one or more code points; the string is passed because the lowercase form
    of capital sigma depends on its neighbours);
  \<^item> \<open>uni_title c\<close>: the titlecase form of the non-ASCII code point \<open>c\<close>;
  \<^item> \<open>html_unescape\<close>: \<open>html.unescape\<close>;
  \<^item> \<open>nfkd\<close>: \<open>unicodedata.normalize("NFKD", _)\<close>.
\<close>

record pylib =
  uni_space :: "nat \<Rightarrow> bool"
  uni_cased :: "nat \<Rightarrow> bool"
  uni_lower :: "str \<Rightarrow> nat \<Rightarrow> str"
  uni_title :: "nat \<Rightarrow> str"
  html_unescape :: "str \<Rightarrow> str"
  nfkd :: "str \<Rightarrow> str"

text \<open>The regular-expression classes \<open>[A-Z]\<close>, \<open>[a-z]\<close> and \<open>[0-9]\<close>.\<close>

definition is_AZ :: "nat \<Rightarrow> bool" where
  "is_AZ c \<longleftrightarrow> 65 \<le> c \<and> c \<le> 90"

definition is_az :: "nat \<Rightarrow> bool" where
  "is_az c \<longleftrightarrow> 97 \<le> c \<and> c \<le> 122"

definition is_09 :: "nat \<Rightarrow> bool" where
  "is_09 c \<longleftrightarrow> 48 \<le> c \<and> c \<le> 57"

text \<open>
  Whitespace, as \<open>\s\<close> and \<open>str.strip\<close> see it: in ASCII the characters 9 to 13, 28 to 31
  and the space.
\<close>

definition isspace :: "pylib \<Rightarrow> nat \<Rightarrow> bool" where
  "isspace L c =
     (if c < 128 then (9 \<le> c \<and> c \<le> 13) \<or> (28 \<le> c \<and> c \<le> 31) \<or> c = 32
      else uni_space L c)"

definition iscased :: "pylib \<Rightarrow> nat \<Rightarrow> bool" where
  "iscased L c = (if c < 128 then is_AZ c \<or> is_az c else uni_cased L c)"

text \<open>Case mapping of an ASCII code point: only the letters move, by 32.\<close>

definition ascii_lower :: "nat \<Rightarrow> nat" where
  "ascii_lower c = (if is_AZ c then c + 32 else c)"

definition ascii_upper :: "nat \<Rightarrow> nat" where
  "ascii_upper c = (if is_az c then c - 32 else c)"

text \<open>The lowercase form of the code point at index \<open>i\<close> of \<open>s\<close>, and the titlecase form of a code point.\<close>

definition lower_at :: "pylib \<Rightarrow> str \<Rightarrow> nat \<Rightarrow> str" where
  "lower_at L s i =
     (let c = s ! i
      in if c < 128 then [ascii_lower c] else uni_lower L s i)"

definition totitle :: "pylib \<Rightarrow> nat \<Rightarrow> str" where
  "totitle L c = (if c < 128 then [ascii_upper c] else uni_title L c)"

text \<open>\<open>s.lower()\<close>.\<close>

definition py_lower :: "pylib \<Rightarrow> str \<Rightarrow> str" where
  "py_lower L s = concat (map (lower_at L s) [0..<length s])"

text \<open>
  \<open>s.title()\<close> walks the string with one flag, whether the previous character is cased:
  a character after a cased one is lowercased, any other character is titlecased.
\<close>

fun do_title :: "pylib \<Rightarrow> str \<Rightarrow> nat list \<Rightarrow> bool \<Rightarrow> str" where
  "do_title L s [] previous_is_cased = []"
| "do_title L s (i # is) previous_is_cased =
     (if previous_is_cased then lower_at L s i else totitle L (s ! i))
     @ do_title L s is (iscased L (s ! i))"

definition py_title :: "pylib \<Rightarrow> str \<Rightarrow> str" where
  "py_title L s = do_title L s [0..<length s] False"

text \<open>
  Splitting at every single character of a class (\<open>re.split\<close> with a one-character class,
  \<open>str.split\<close> with a one-character separator): the pieces between the separators, empty
  pieces included. The result is never the empty list.
\<close>

fun split_where :: "(nat \<Rightarrow> bool) \<Rightarrow> str \<Rightarrow> str list" where
  "split_where P [] = [[]]"
| "split_where P (c # cs) =
     (if P c then [] # split_where P cs
      else (case split_where P cs of p # ps \<Rightarrow> (c # p) # ps | [] \<Rightarrow> [[c]]))"

text \<open>\<open>s.replace(old, new)\<close> for one-character \<open>old\<close> and \<open>new\<close>.\<close>

definition replace_chr :: "nat \<Rightarrow> nat \<Rightarrow> str \<Rightarrow> str" where
  "replace_chr old new s = map (\<lambda>c. if c = old then new else c) s"

text \<open>\<open>s.strip()\<close> and \<open>s.strip(chars)\<close>: drop the characters of a class from both ends.\<close>

definition strip_where :: "(nat \<Rightarrow> bool) \<Rightarrow> str \<Rightarrow> str" where
  "strip_where P s = rev (dropWhile P (rev (dropWhile P s)))"

text \<open>
  \<open>re.sub(r'[class]+', repl, s)\<close>: every maximal run of characters of the class becomes one
  copy of \<open>repl\<close>.
\<close>

function sub_runs :: "(nat \<Rightarrow> bool) \<Rightarrow> str \<Rightarrow> str \<Rightarrow> str" where
  "sub_runs P repl [] = []"
| "sub_runs P repl (c # cs) =
     (if P c then repl @ sub_runs P repl (dropWhile P cs) else c # sub_runs P repl cs)"
  by pat_completeness auto
termination
  by (relation "measure (\<lambda>(P, repl, s). length s)")
     (auto simp: length_dropWhile_le less_Suc_eq_le)

text \<open>\<open>s * n\<close>: the empty string when \<open>n\<close> is zero or negative.\<close>

definition str_mul :: "str \<Rightarrow> int \<Rightarrow> str" where
  "str_mul s n = concat (replicate (nat n) s)"

text \<open>\<open>s[i:]\<close>: a negative start counts from the end, and the start is clamped to the string.\<close>

definition slice_from :: "int \<Rightarrow> 'a list \<Rightarrow> 'a list" where
  "slice_from i s =
     (let n = int (length s);
          j = (if i < 0 then max 0 (n + i) else min i n)
      in drop (nat j) s)"

section \<open>cases.py\<close>

text \<open>
  \<open>re.sub(r'(.)([A-Z][a-z]+)', r'\1_\2', s)\<close>: the dot is any character but the newline;
  \<open>[a-z]+\<close> is greedy, and the scan resumes after the match.
\<close>

function sub_upper_word :: "str \<Rightarrow> str" where
  "sub_upper_word (c # u # l # rest) =
     (if c \<noteq> 10 \<and> is_AZ u \<and> is_az l
      then [c, 95, u, l] @ takeWhile is_az rest @ sub_upper_word (dropWhile is_az rest)
      else c # sub_upper_word (u # l # rest))"
| "sub_upper_word [c, u] = [c, u]"
| "sub_upper_word [c] = [c]"
| "sub_upper_word [] = []"
  by pat_completeness auto
termination
  by (relation "measure length") (auto simp: length_dropWhile_le less_Suc_eq_le le_SucI)

text \<open>\<open>re.sub(r'([a-z0-9])([A-Z])', r'\1_\2', s)\<close>.\<close>

fun sub_lower_upper :: "str \<Rightarrow> str" where
  "sub_lower_upper (c # u # rest) =
     (if (is_az c \<or> is_09 c) \<and> is_AZ u
      then [c, 95, u] @ sub_lower_upper rest
      else c # sub_lower_upper (u # rest))"
| "sub_lower_upper [c] = [c]"
| "sub_lower_upper [] = []"

definition to_snake :: "pylib \<Rightarrow> str \<Rightarrow> str" where
  "to_snake L s = py_lower L (replace_chr 32 95 (sub_lower_upper (sub_upper_word s)))"




definition to_kebab :: "pylib \<Rightarrow> str \<Rightarrow> str" where
  "to_kebab L s = replace_chr 95 45 (to_snake L s)"

text \<open>
  A library table that knows nothing beyond ASCII: no other code point is whitespace or
  cased, and every string function is the identity. It serves to run the functions on
  ASCII input.
\<close>

definition ascii_only :: pylib where
  "ascii_only = \<lparr> uni_space = (\<lambda>c. False), uni_cased = (\<lambda>c. False),
     uni_lower = (\<lambda>s i. [s ! i]), uni_title = (\<lambda>c. [c]),
     html_unescape = (\<lambda>s. s), nfkd = (\<lambda>s. s) \<rparr>"

section \<open>clean.py and slug.py\<close>

text \<open>
  \<open>re.sub(r'<.*?>', '', s)\<close>: from a \<open><\<close>, the shortest span to the next \<open>>\<close>; the dot
  does not match a newline, so a \<open><\<close> with a newline before the next \<open>>\<close> (or with no
  \<open>>\<close> after it) stays.
\<close>

function remove_html :: "str \<Rightarrow> str" where
  "remove_html [] = []"
| "remove_html (c # cs) =
     (if c = 60 then
        (case dropWhile (\<lambda>x. x \<noteq> 62 \<and> x \<noteq> 10) cs of
           x # rest \<Rightarrow> if x = 62 then remove_html rest else c # remove_html cs
         | [] \<Rightarrow> c # remove_html cs)
      else c # remove_html cs)"
  by pat_completeness auto
termination
proof (relation "measure length")
  fix c :: nat and cs rest :: str and x :: nat
  assume "dropWhile (\<lambda>x. x \<noteq> 62 \<and> x \<noteq> 10) cs = x # rest"
  moreover have "length (dropWhile (\<lambda>x. x \<noteq> 62 \<and> x \<noteq> 10) cs) \<le> length cs"
    by (rule length_dropWhile_le)
  ultimately show "(rest, c # cs) \<in> measure length" by simp
qed simp_all

text \<open>The four ranges of \<open>EMOJI_PATTERN\<close>.\<close>

definition is_emoji :: "nat \<Rightarrow> bool" where
  "is_emoji c \<longleftrightarrow>
     (0x1F600 \<le> c \<and> c \<le> 0x1F64F) \<or> (0x1F300 \<le> c \<and> c \<le> 0x1F5FF) \<or>
     (0x1F680 \<le> c \<and> c \<le> 0x1F6FF) \<or> (0x1F1E0 \<le> c \<and> c \<le> 0x1F1FF)"

definition remove_emoji :: "str \<Rightarrow> str" where
  "remove_emoji s = sub_runs is_emoji [] s"

definition normalize_spaces :: "pylib \<Rightarrow> str \<Rightarrow> str" where
  "normalize_spaces L s = strip_where (isspace L) (sub_runs (isspace L) (ascii '' '') s)"

definition normalize_unicode :: "pylib \<Rightarrow> str \<Rightarrow> str" where
  "normalize_unicode L s = nfkd L s"

definition clean_text :: "pylib \<Rightarrow> str \<Rightarrow> str" where
  "clean_text L s =
     (let s = html_unescape L s;
          s = remove_html s;
          s = remove_emoji s;
          s = normalize_unicode L s;
          s = normalize_spaces L s
      in s)"

definition slugify :: "pylib \<Rightarrow> str \<Rightarrow> str" where
  "slugify L s =
     (let s = py_lower L (clean_text L s);
          s = sub_runs (\<lambda>c. \<not> (is_az c \<or> is_09 c)) (ascii ''-'') s
      in strip_where (\<lambda>c. c = 45) s)"

section \<open>security.py\<close>

text \<open>
  \<open>name, domain = email.split("@")\<close> raises ValueError unless the split has exactly two
  pieces; \<open>name[0]\<close> raises IndexError on an empty \<open>name\<close>.
\<close>

definition mask_email :: "str \<Rightarrow> error + str" where
  "mask_email email =
     (case split_where (\<lambda>c. c = 64) email of
        [name, domain] \<Rightarrow>
          (case name of
             [] \<Rightarrow> Inl IndexError
           | c # _ \<Rightarrow> Inr ([c] @ ascii ''***@'' @ domain))
      | _ \<Rightarrow> Inl ValueError)"

definition mask_phone :: "str \<Rightarrow> str" where
  "mask_phone phone = str_mul (ascii ''*'') (int (length phone) - 4) @ slice_from (- 4) phone"

section \<open>replace.py\<close>

text \<open>
  A \<open>dict\<close> of strings is an association list in insertion order. The pattern
  \<open>"|".join(map(re.escape, mapping.keys()))\<close> is the alternation of the keys as literals,
  in that order; with no key at all it is the empty pattern, a single empty alternative.
\<close>

type_synonym dict = "(str \<times> str) list"

definition alternatives :: "dict \<Rightarrow> str list" where
  "alternatives mapping = (if mapping = [] then [[]] else map fst mapping)"

text \<open>
  Matching the alternation where the remaining text \<open>s\<close> starts: the first alternative
  that is a prefix of \<open>s\<close> wins. After an empty match the scan must advance: at the same
  place an empty match is refused and the later alternatives are tried.
\<close>

fun match_here :: "str list \<Rightarrow> bool \<Rightarrow> str \<Rightarrow> str option" where
  "match_here [] must_advance s = None"
| "match_here (k # ks) must_advance s =
     (if prefix k s \<and> \<not> (must_advance \<and> k = []) then Some k
      else match_here ks must_advance s)"

text \<open>
  \<open>pattern.sub(repl, s)\<close> with a function \<open>repl\<close> of the matched text, which may raise:
  a match is replaced and the scan resumes after it (at the same place, refusing an empty
  match, when the match was empty); where nothing matches, one character is copied.
\<close>

function re_sub :: "str list \<Rightarrow> (str \<Rightarrow> error + str) \<Rightarrow> bool \<Rightarrow> str \<Rightarrow> error + str" where
  "re_sub alts repl must_advance s =
     (case match_here alts must_advance s of
        Some k \<Rightarrow>
          (case repl k of
             Inl e \<Rightarrow> Inl e
           | Inr v \<Rightarrow>
               (case (if k = [] then re_sub alts repl True s
                      else re_sub alts repl False (drop (length k) s)) of
                  Inl e \<Rightarrow> Inl e
                | Inr out \<Rightarrow> Inr (v @ out)))
      | None \<Rightarrow>
          (case s of
             [] \<Rightarrow> Inr []
           | c # cs \<Rightarrow>
               (case re_sub alts repl False cs of
                  Inl e \<Rightarrow> Inl e
                | Inr out \<Rightarrow> Inr (c # out))))"
  by pat_completeness auto
termination
proof -
  have refused: "match_here zs b s = Some [] \<Longrightarrow> \<not> b" for zs b s
    by (induction zs) (auto split: if_splits)
  have shorter: "match_here zs b s = Some k \<Longrightarrow> k \<noteq> [] \<Longrightarrow> length s - length k < length s"
    for zs b s k
  proof (induction zs)
    case Nil
    then show ?case by simp
  next
    case (Cons z zs)
    show ?case
    proof (cases "prefix z s \<and> \<not> (b \<and> z = [])")
      case True
      with Cons.prems have "prefix k s" by simp
      then have "length k \<le> length s" by (rule prefix_length_le)
      with Cons.prems(2) show ?thesis by (cases k) auto
    next
      case False
      with Cons show ?thesis by auto
    qed
  qed
  show ?thesis
    by (relation "measure (\<lambda>(alts, repl, must_advance, s).
          2 * length s + (if must_advance then 0 else 1))")
       (auto dest: refused shorter)
qed

declare re_sub.simps [simp del]

text \<open>\<open>mapping[key]\<close> raises KeyError for a key that is not in the dict.\<close>

definition getitem :: "dict \<Rightarrow> str \<Rightarrow> error + str" where
  "getitem mapping k = (case map_of mapping k of None \<Rightarrow> Inl KeyError | Some v \<Rightarrow> Inr v)"

definition multi_replace :: "str \<Rightarrow> dict \<Rightarrow> error + str" where
  "multi_replace s mapping = re_sub (alternatives mapping) (getitem mapping) False s"

section \<open>fuzzy.py\<close>

text \<open>
  \<open>SequenceMatcher(None, a, b)\<close> of \<open>difflib\<close>, with no junk function and with the
  automatic junk heuristic on, as the constructor's defaults have it.

  \<open>__chain_b\<close> builds \<open>b2j\<close>, which maps every element of \<open>b\<close> to the list of its
  indices in \<open>b\<close>, in increasing order. When \<open>b\<close> has 200 elements or more, the elements
  that occur more than \<open>len(b) // 100 + 1\<close> times are popular and are deleted from
  \<open>b2j\<close>.
\<close>

definition index_elt :: "(nat \<rightharpoonup> nat list) \<Rightarrow> nat \<times> nat \<Rightarrow> (nat \<rightharpoonup> nat list)" where
  "index_elt b2j ie =
     (case ie of (i, elt) \<Rightarrow>
        b2j(elt \<mapsto> (case b2j elt of None \<Rightarrow> [] | Some indices \<Rightarrow> indices) @ [i]))"

definition chain_b :: "str \<Rightarrow> (nat \<rightharpoonup> nat list)" where
  "chain_b b =
     (let b2j = foldl index_elt Map.empty (enumerate 0 b);
          n = length b
      in if n \<ge> 200
         then (\<lambda>elt. case b2j elt of
                 None \<Rightarrow> None
               | Some idxs \<Rightarrow> if length idxs > n div 100 + 1 then None else Some idxs)
         else b2j)"

text \<open>
  \<open>find_longest_match(alo, ahi, blo, bhi)\<close>. A match is the triple \<open>(i, j, k)\<close> with
  \<open>a[i:i+k] == b[j:j+k]\<close>. The inner loop runs over the indices \<open>j\<close> of \<open>a[i]\<close> in \<open>b\<close>;
  \<open>j2len\<close> holds, for the previous row, the length of the match ending at each \<open>j\<close>.
  The lookup \<open>j2len.get(j - 1, 0)\<close> at \<open>j = 0\<close> asks for the key \<open>-1\<close>, which is never
  stored.
\<close>

type_synonym match = "nat \<times> nat \<times> nat"

fun scan_row :: "nat \<Rightarrow> nat \<Rightarrow> nat \<Rightarrow> (nat \<rightharpoonup> nat) \<Rightarrow> nat list \<Rightarrow> (nat \<rightharpoonup> nat) \<times> match
    \<Rightarrow> (nat \<rightharpoonup> nat) \<times> match" where
  "scan_row i blo bhi j2len [] st = st"
| "scan_row i blo bhi j2len (j # js) (newj2len, besti, bestj, bestsize) =
     (if j < blo then scan_row i blo bhi j2len js (newj2len, besti, bestj, bestsize)
      else if j \<ge> bhi then (newj2len, besti, bestj, bestsize)
      else
        (let k = (if j = 0 then 0 else case j2len (j - 1) of None \<Rightarrow> 0 | Some v \<Rightarrow> v) + 1
         in if k > bestsize
            then scan_row i blo bhi j2len js (newj2len(j \<mapsto> k), i + 1 - k, j + 1 - k, k)
            else scan_row i blo bhi j2len js (newj2len(j \<mapsto> k), besti, bestj, bestsize)))"

fun scan_rows :: "str \<Rightarrow> (nat \<rightharpoonup> nat list) \<Rightarrow> nat \<Rightarrow> nat \<Rightarrow> nat list \<Rightarrow> (nat \<rightharpoonup> nat) \<times> match
    \<Rightarrow> match" where
  "scan_rows a b2j blo bhi [] (j2len, best) = best"
| "scan_rows a b2j blo bhi (i # is) (j2len, best) =
     scan_rows a b2j blo bhi is
       (scan_row i blo bhi j2len (case b2j (a ! i) of None \<Rightarrow> [] | Some idxs \<Rightarrow> idxs)
          (Map.empty, best))"

text \<open>
  The two loops that extend the best match by equal elements on each end. With no junk
  function the set of junk elements is empty, so the test \<open>not isbjunk(...)\<close> always
  passes and the two loops that collect junk never run.
\<close>

function extend_left :: "str \<Rightarrow> str \<Rightarrow> nat \<Rightarrow> nat \<Rightarrow> match \<Rightarrow> match" where
  "extend_left a b alo blo (besti, bestj, bestsize) =
     (if besti > alo \<and> bestj > blo \<and> a ! (besti - 1) = b ! (bestj - 1)
      then extend_left a b alo blo (besti - 1, bestj - 1, bestsize + 1)
      else (besti, bestj, bestsize))"
  by pat_completeness auto
termination
  by (relation "measure (\<lambda>(a, b, alo, blo, besti, bestj, bestsize). besti)") auto

function extend_right :: "str \<Rightarrow> str \<Rightarrow> nat \<Rightarrow> nat \<Rightarrow> match \<Rightarrow> match" where
  "extend_right a b ahi bhi (besti, bestj, bestsize) =
     (if besti + bestsize < ahi \<and> bestj + bestsize < bhi
         \<and> a ! (besti + bestsize) = b ! (bestj + bestsize)
      then extend_right a b ahi bhi (besti, bestj, bestsize + 1)
      else (besti, bestj, bestsize))"
  by pat_completeness auto
termination
  by (relation "measure (\<lambda>(a, b, ahi, bhi, besti, bestj, bestsize). ahi - (besti + bestsize))") auto

declare extend_left.simps [simp del] extend_right.simps [simp del]

definition find_longest_match :: "str \<Rightarrow> str \<Rightarrow> (nat \<rightharpoonup> nat list) \<Rightarrow> nat \<Rightarrow> nat \<Rightarrow> nat \<Rightarrow> nat \<Rightarrow> match" where
  "find_longest_match a b b2j alo ahi blo bhi =
     extend_right a b ahi bhi
       (extend_left a b alo blo
          (scan_rows a b2j blo bhi [alo..<ahi] (Map.empty, (alo, blo, 0))))"

text \<open>
  The loop of \<open>get_matching_blocks\<close>. The queue is a stack of regions
  \<open>(alo, ahi, blo, bhi)\<close>: \<open>pop()\<close> takes the region pushed last, which is the head of the
  list here. The loop is written as it stands; that it ends is not built into the
  definition, and \<open>None\<close> stands for a loop that does not end.
\<close>

type_synonym region = "nat \<times> nat \<times> nat \<times> nat"

partial_function (option) matching_loop ::
    "str \<Rightarrow> str \<Rightarrow> (nat \<rightharpoonup> nat list) \<Rightarrow> region list \<Rightarrow> match list \<Rightarrow> match list option" where
  "matching_loop a b b2j queue matching_blocks =
     (case queue of
        [] \<Rightarrow> Some matching_blocks
      | (alo, ahi, blo, bhi) # rest \<Rightarrow>
          (case find_longest_match a b b2j alo ahi blo bhi of
             (i, j, k) \<Rightarrow>
               if k \<noteq> 0
               then matching_loop a b b2j
                      ((if i + k < ahi \<and> j + k < bhi then [(i + k, ahi, j + k, bhi)] else [])
                       @ (if alo < i \<and> blo < j then [(alo, i, blo, j)] else [])
                       @ rest)
                      (matching_blocks @ [(i, j, k)])
               else matching_loop a b b2j rest matching_blocks))"

declare matching_loop.simps [code]

text \<open>
  After the loop the blocks are sorted, adjacent blocks are merged into one, and the
  sentinel \<open>(len(a), len(b), 0)\<close> is appended.
\<close>

fun collapse :: "match \<Rightarrow> match list \<Rightarrow> match list" where
  "collapse (i1, j1, k1) [] = (if k1 \<noteq> 0 then [(i1, j1, k1)] else [])"
| "collapse (i1, j1, k1) ((i2, j2, k2) # blocks) =
     (if i1 + k1 = i2 \<and> j1 + k1 = j2 then collapse (i1, j1, k1 + k2) blocks
      else (if k1 \<noteq> 0 then [(i1, j1, k1)] else []) @ collapse (i2, j2, k2) blocks)"

definition get_matching_blocks :: "str \<Rightarrow> str \<Rightarrow> match list option" where
  "get_matching_blocks a b =
     (case matching_loop a b (chain_b b) [(0, length a, 0, length b)] [] of
        None \<Rightarrow> None
      | Some matching_blocks \<Rightarrow>
          Some (collapse (0, 0, 0) (sort matching_blocks) @ [(length a, length b, 0)]))"

text \<open>
  \<open>ratio()\<close> and \<open>round(_, 3)\<close>. A Python float is modelled by the rational number it
  stands for: the quotient is exact, and \<open>round\<close> takes the nearest multiple of one
  thousandth, a tie going to the even one.
\<close>

definition calculate_ratio :: "nat \<Rightarrow> nat \<Rightarrow> rat" where
  "calculate_ratio matches len = (if len \<noteq> 0 then 2 * of_nat matches / of_nat len else 1)"

definition ratio :: "str \<Rightarrow> str \<Rightarrow> rat option" where
  "ratio a b =
     (case get_matching_blocks a b of
        None \<Rightarrow> None
      | Some blocks \<Rightarrow>
          Some (calculate_ratio (sum_list (map (\<lambda>(i, j, k). k) blocks)) (length a + length b)))"

definition round3 :: "rat \<Rightarrow> rat" where
  "round3 x =
     (let y = x * 1000; f = \<lfloor>y\<rfloor>; d = y - of_int f
      in of_int (if d < 1 / 2 then f else if d > 1 / 2 then f + 1
                 else if even f then f else f + 1) / 1000)"

definition similarity :: "str \<Rightarrow> str \<Rightarrow> rat option" where
  "similarity a b = (case ratio a b of None \<Rightarrow> None | Some r \<Rightarrow> Some (round3 r))"

section \<open>Notions of the specification\<close>

text \<open>
  The regular expression \<open>^[a-z0-9]+(-[a-z0-9]+)*$\<close> as an automaton with one flag,
  whether the previous character was a letter or digit: a hyphen is accepted only after a
  letter or digit, and the string must end on a letter or digit.
\<close>

fun slug_regex_from :: "bool \<Rightarrow> str \<Rightarrow> bool" where
  "slug_regex_from prev [] = prev"
| "slug_regex_from prev (c # cs) =
     (if is_az c \<or> is_09 c then slug_regex_from True cs
      else c = 45 \<and> prev \<and> slug_regex_from False cs)"

definition slug_regex :: "str \<Rightarrow> bool" where
  "slug_regex s = slug_regex_from False s"

text \<open>
  The output of the run substitution has only letters, digits and hyphens, and no two
  hyphens in a row; \<open>single_hyphens\<close> says so, with a flag for a hyphen just before.
\<close>

fun single_hyphens :: "bool \<Rightarrow> str \<Rightarrow> bool" where
  "single_hyphens prev [] = True"
| "single_hyphens prev (c # cs) =
     (if is_az c \<or> is_09 c then single_hyphens False cs
      else c = 45 \<and> \<not> prev \<and> single_hyphens True cs)"



text \<open>
  The scan of \<open>multiReplace\<close> in the words of the specification. At a position, the
  key that matches there and comes first in the mapping wins; it is replaced by its value
  and the scan advances past the key. A position where no key matches is copied. The
  values are never scanned again.
\<close>

fun first_match :: "dict \<Rightarrow> str \<Rightarrow> (str \<times> str) option" where
  "first_match [] s = None"
| "first_match ((k, v) # m) s = (if prefix k s then Some (k, v) else first_match m s)"

inductive scan_replace :: "dict \<Rightarrow> str \<Rightarrow> str \<Rightarrow> bool" for m :: dict where
  scan_end: "scan_replace m [] []"
| scan_match: "first_match m s = Some (k, v) \<Longrightarrow> scan_replace m (drop (length k) s) out
     \<Longrightarrow> scan_replace m s (v @ out)"
| scan_copy: "first_match m (c # s) = None \<Longrightarrow> scan_replace m s out
     \<Longrightarrow> scan_replace m (c # s) (c # out)"

code_pred scan_replace .

text \<open>
  For the matcher: an element is indexed when \<open>b2j\<close> has it (it occurs in \<open>b\<close> and is not
  popular), and \<open>run_at b p\<close> counts the indexed elements of \<open>b\<close> in a row that end at
  index \<open>p\<close>.
\<close>

definition indexed :: "str \<Rightarrow> nat \<Rightarrow> bool" where
  "indexed b x \<longleftrightarrow> chain_b b x \<noteq> None"

fun run_at :: "str \<Rightarrow> nat \<Rightarrow> nat" where
  "run_at b 0 = (if indexed b (b ! 0) then 1 else 0)"
| "run_at b (Suc p) = (if indexed b (b ! Suc p) then run_at b p + 1 else 0)"

section \<open>Facts about the string helpers\<close>

lemma split_where_not_Nil: "split_where P s \<noteq> []"
  by (induction s) (auto split: list.splits)

lemma length_split_where: "length (split_where P s) = Suc (length (filter P s))"
  by (induction s) (auto split: list.splits simp: split_where_not_Nil)

lemma split_where_no_sep: "\<forall>c\<in>set s. \<not> P c \<Longrightarrow> split_where P s = [s]"
  by (induction s) auto

lemma split_where_append:
  "\<forall>c\<in>set n. \<not> P c \<Longrightarrow> P d \<Longrightarrow> split_where P (n @ d # r) = n # split_where P r"
  by (induction n) (auto split: list.splits simp: split_where_not_Nil)

lemma count_list_filter: "count_list s d = length (filter (\<lambda>c. c = d) s)"
  by (induction s) auto

text \<open>Unfolding the character classes and the ASCII-only table, to run the functions.\<close>

lemmas eval_simps = ascii_def ascii_only_def is_az_def is_09_def is_AZ_def isspace_def
  iscased_def is_emoji_def py_lower_def lower_at_def ascii_lower_def ascii_upper_def
  py_title_def totitle_def upt_conv_Cons

section \<open>Case conversion\<close>
























section \<open>The shape of a slug\<close>

lemma hyphen_not_alnum: "\<not> is_az 45" "\<not> is_09 45"
  by (simp_all add: is_az_def is_09_def)

lemma single_hyphens_weaken: "single_hyphens b s \<Longrightarrow> single_hyphens False s"
  by (cases s) (auto split: if_splits)

lemma single_hyphens_after_alnum:
  "single_hyphens False s \<Longrightarrow> s = [] \<or> is_az (hd s) \<or> is_09 (hd s) \<Longrightarrow> single_hyphens True s"
  by (cases s) auto

lemma sub_runs_head:
  "s = [] \<or> \<not> P (hd s) \<Longrightarrow> sub_runs P r s = [] \<or> \<not> P (hd (sub_runs P r s))"
  by (cases s) auto

lemma dropWhile_head: "dropWhile P s = [] \<or> \<not> P (hd (dropWhile P s))"
  by (metis hd_dropWhile)

lemma sub_runs_single_hyphens:
  "single_hyphens False (sub_runs (\<lambda>c. \<not> (is_az c \<or> is_09 c)) [45] s)"
proof (induction "\<lambda>c. \<not> (is_az c \<or> is_09 c)" "[45::nat]" s rule: sub_runs.induct)
  case 1
  show ?case by simp
next
  case (2 c cs)
  let ?N = "\<lambda>c. \<not> (is_az c \<or> is_09 c)"
  show ?case
  proof (cases "?N c")
    case True
    have "single_hyphens False (sub_runs ?N [45] (dropWhile ?N cs))"
      using 2(1) True by simp
    moreover have "sub_runs ?N [45] (dropWhile ?N cs) = []
        \<or> \<not> ?N (hd (sub_runs ?N [45] (dropWhile ?N cs)))"
      by (rule sub_runs_head) (rule dropWhile_head)
    ultimately have "single_hyphens True (sub_runs ?N [45] (dropWhile ?N cs))"
      by (intro single_hyphens_after_alnum) auto
    with True show ?thesis by (simp add: hyphen_not_alnum)
  next
    case False
    then have "is_az c \<or> is_09 c" by simp
    with 2(2) show ?thesis by auto
  qed
qed

lemma single_hyphens_prefix: "single_hyphens b (u @ v) \<Longrightarrow> single_hyphens b u"
  by (induction u arbitrary: b) (auto split: if_splits)

lemma single_hyphens_dropWhile:
  "single_hyphens b s \<Longrightarrow> single_hyphens False (dropWhile (\<lambda>c. c = 45) s)"
proof (induction s arbitrary: b)
  case Nil
  show ?case by simp
next
  case (Cons c cs)
  show ?case
  proof (cases "c = 45")
    case True
    with Cons.prems have "single_hyphens True cs" by (simp add: hyphen_not_alnum)
    with Cons.IH True show ?thesis by simp
  next
    case False
    with Cons.prems show ?thesis by (auto split: if_splits)
  qed
qed

lemma rev_split: "w = rev (dropWhile P (rev w)) @ rev (takeWhile P (rev w))"
proof -
  have "rev (rev w) = rev (takeWhile P (rev w) @ dropWhile P (rev w))"
    by (simp only: takeWhile_dropWhile_id)
  then show ?thesis by (simp only: rev_rev_ident rev_append)
qed

lemma strip_hyphen_ends:
  "strip_where (\<lambda>c. c = 45) s \<noteq> [] \<Longrightarrow>
     hd (strip_where (\<lambda>c. c = 45) s) \<noteq> 45 \<and> last (strip_where (\<lambda>c. c = 45) s) \<noteq> 45"
proof -
  assume ne: "strip_where (\<lambda>c. c = 45) s \<noteq> []"
  let ?w = "dropWhile (\<lambda>c. c = 45) s"
  let ?r = "dropWhile (\<lambda>c. c = 45) (rev ?w)"
  have out: "strip_where (\<lambda>c. c = 45) s = rev ?r" by (simp add: strip_where_def)
  from ne out have rne: "?r \<noteq> []" by simp
  then have "hd ?r \<noteq> 45" using hd_dropWhile [of "\<lambda>c. c = 45" "rev ?w"] by blast
  then have l: "last (rev ?r) \<noteq> 45" using rne by (simp add: last_rev)
  have wne: "?w \<noteq> []"
  proof
    assume "?w = []"
    then have "?r = []" by (simp del: dropWhile_eq_Nil_conv)
    with rne show False by contradiction
  qed
  then have hw: "hd ?w \<noteq> 45" using hd_dropWhile [of "\<lambda>c. c = 45" s] by blast
  have "?w = rev ?r @ rev (takeWhile (\<lambda>c. c = 45) (rev ?w))" by (rule rev_split)
  then have "hd ?w = hd (rev ?r @ rev (takeWhile (\<lambda>c. c = 45) (rev ?w)))" by (rule arg_cong)
  moreover have "rev ?r \<noteq> []" using rne by (simp only: rev_is_Nil_conv not_False_eq_True)
  then have "hd (rev ?r @ rev (takeWhile (\<lambda>c. c = 45) (rev ?w))) = hd (rev ?r)"
    by (rule hd_append2)
  ultimately have "hd ?w = hd (rev ?r)" by (rule trans)
  with hw l out show ?thesis by simp
qed

lemma strip_hyphen_single:
  assumes "single_hyphens b s"
  shows "single_hyphens False (strip_where (\<lambda>c. c = 45) s)"
proof -
  let ?w = "dropWhile (\<lambda>c. c = 45) s"
  let ?r = "dropWhile (\<lambda>c. c = 45) (rev ?w)"
  have w: "single_hyphens False ?w" using assms by (rule single_hyphens_dropWhile)
  have "?w = rev ?r @ rev (takeWhile (\<lambda>c. c = 45) (rev ?w))" by (rule rev_split)
  with w have "single_hyphens False (rev ?r @ rev (takeWhile (\<lambda>c. c = 45) (rev ?w)))" by simp
  then have "single_hyphens False (rev ?r)" by (rule single_hyphens_prefix)
  then show ?thesis by (simp add: strip_where_def)
qed

lemma single_hyphens_regex:
  "single_hyphens b s \<Longrightarrow> s \<noteq> [] \<Longrightarrow> last s \<noteq> 45 \<Longrightarrow>
     (\<not> (is_az (hd s) \<or> is_09 (hd s)) \<longrightarrow> p) \<Longrightarrow> slug_regex_from p s"
proof (induction s arbitrary: b p)
  case Nil
  then show ?case by simp
next
  case (Cons c cs)
  show ?case
  proof (cases "is_az c \<or> is_09 c")
    case True
    with Cons.prems have sh: "single_hyphens False cs" by simp
    show ?thesis
    proof (cases "cs = []")
      case True
      with \<open>is_az c \<or> is_09 c\<close> show ?thesis by simp
    next
      case False
      with Cons.prems have "last cs \<noteq> 45" by simp
      with Cons.IH [OF sh False, of True] True show ?thesis by simp
    qed
  next
    case False
    with Cons.prems have c: "c = 45" and p: p and sh: "single_hyphens True cs" by auto
    with Cons.prems have ne: "cs \<noteq> []" by auto
    with Cons.prems have l: "last cs \<noteq> 45" by simp
    from sh ne have "is_az (hd cs) \<or> is_09 (hd cs)" by (cases cs) (auto split: if_splits)
    with Cons.IH [OF sh ne l, of False] False c p show ?thesis by simp
  qed
qed

lemma single_hyphens_chars: "single_hyphens b s \<Longrightarrow> \<forall>c\<in>set s. is_az c \<or> is_09 c \<or> c = 45"
  by (induction s arbitrary: b) (auto split: if_splits)

lemma single_hyphens_no_double:
  "single_hyphens b s \<Longrightarrow> Suc i < length s \<Longrightarrow> \<not> (s ! i = 45 \<and> s ! Suc i = 45)"
proof (induction s arbitrary: b i)
  case Nil
  then show ?case by simp
next
  case (Cons c cs)
  show ?case
  proof (cases i)
    case 0
    show ?thesis
    proof
      assume h: "(c # cs) ! i = 45 \<and> (c # cs) ! Suc i = 45"
      with 0 Cons.prems(2) obtain ds where "c = 45" and "cs = 45 # ds" by (cases cs) auto
      with Cons.prems(1) show False by (simp add: hyphen_not_alnum)
    qed
  next
    case (Suc j)
    from Cons.prems(1) obtain b' where "single_hyphens b' cs" by (auto split: if_splits)
    from Cons.IH [OF this, of j] Suc Cons.prems(2) show ?thesis by simp
  qed
qed

text \<open>
  Claim C3. For every input and every library table, the output of \<open>slugify\<close> is empty
  or matches \<open>^[a-z0-9]+(-[a-z0-9]+)*$\<close>: it holds only lowercase ASCII letters, digits
  and hyphens (code point 45), it neither starts nor ends with a hyphen, and no two
  hyphens are adjacent.
\<close>

theorem slugify_shape:
  "(slugify L s = [] \<or> slug_regex (slugify L s)) \<and>
   (\<forall>c\<in>set (slugify L s). is_az c \<or> is_09 c \<or> c = 45) \<and>
   (slugify L s \<noteq> [] \<longrightarrow> hd (slugify L s) \<noteq> 45 \<and> last (slugify L s) \<noteq> 45) \<and>
   (\<forall>i. Suc i < length (slugify L s) \<longrightarrow>
      \<not> (slugify L s ! i = 45 \<and> slugify L s ! Suc i = 45))"
proof -
  let ?N = "\<lambda>c. \<not> (is_az c \<or> is_09 c)"
  let ?t = "sub_runs ?N [45] (py_lower L (clean_text L s))"
  have out: "slugify L s = strip_where (\<lambda>c. c = 45) ?t"
    by (simp add: slugify_def ascii_def)
  have t: "single_hyphens False ?t" by (rule sub_runs_single_hyphens)
  then have sh: "single_hyphens False (slugify L s)"
    unfolding out by (rule strip_hyphen_single)
  have ends: "hd (slugify L s) \<noteq> 45 \<and> last (slugify L s) \<noteq> 45" if "slugify L s \<noteq> []"
    using that unfolding out by (rule strip_hyphen_ends)
  have re: "slug_regex (slugify L s)" if ne: "slugify L s \<noteq> []"
  proof -
    from ends [OF ne] sh ne have "is_az (hd (slugify L s)) \<or> is_09 (hd (slugify L s))"
      by (cases "slugify L s") (auto split: if_splits)
    with single_hyphens_regex [OF sh ne, of False] ends [OF ne] show ?thesis
      by (simp add: slug_regex_def)
  qed
  show ?thesis
  proof (intro conjI impI allI)
    show "slugify L s = [] \<or> slug_regex (slugify L s)" using re by blast
    show "\<forall>c\<in>set (slugify L s). is_az c \<or> is_09 c \<or> c = 45"
      using sh by (rule single_hyphens_chars)
    show "hd (slugify L s) \<noteq> 45" if "slugify L s \<noteq> []" using ends [OF that] ..
    show "last (slugify L s) \<noteq> 45" if "slugify L s \<noteq> []" using ends [OF that] ..
    show "\<not> (slugify L s ! i = 45 \<and> slugify L s ! Suc i = 45)"
      if "Suc i < length (slugify L s)" for i
      using sh that by (rule single_hyphens_no_double)
  qed
qed

theorem slugify_shape_witness:
  "slugify ascii_only (ascii ''  <p>Hello, World! (2024)</p>  '') = ascii ''hello-world-2024'' \<and>
   slugify ascii_only (ascii ''  <p>Hello, World! (2024)</p>  '') \<noteq> [] \<and>
   slug_regex (slugify ascii_only (ascii ''  <p>Hello, World! (2024)</p>  ''))"
proof -
  have e: "slugify ascii_only (ascii ''  <p>Hello, World! (2024)</p>  '') = ascii ''hello-world-2024''"
    by (simp add: slugify_def clean_text_def normalize_unicode_def normalize_spaces_def
        remove_emoji_def strip_where_def eval_simps)
  have ne: "ascii ''hello-world-2024'' \<noteq> []" by (simp add: ascii_def)
  from slugify_shape [of ascii_only "ascii ''  <p>Hello, World! (2024)</p>  ''"] e ne
  show ?thesis by simp
qed

section \<open>Multiple replacement\<close>

lemma re_sub_None:
  "match_here alts b s = None \<Longrightarrow>
     re_sub alts repl b s =
       (case s of [] \<Rightarrow> Inr []
        | c # cs \<Rightarrow> (case re_sub alts repl False cs of Inl e \<Rightarrow> Inl e | Inr out \<Rightarrow> Inr (c # out)))"
  by (subst re_sub.simps) simp

lemma re_sub_Some:
  "match_here alts b s = Some k \<Longrightarrow> k \<noteq> [] \<Longrightarrow> repl k = Inr v \<Longrightarrow>
     re_sub alts repl b s =
       (case re_sub alts repl False (drop (length k) s) of
          Inl e \<Rightarrow> Inl e | Inr out \<Rightarrow> Inr (v @ out))"
  by (subst re_sub.simps) simp

lemma re_sub_error:
  "match_here alts b s = Some k \<Longrightarrow> repl k = Inl e \<Longrightarrow> re_sub alts repl b s = Inl e"
  by (subst re_sub.simps) simp

lemma multi_replace_empty: "multi_replace s [] = Inl KeyError"
  by (simp add: multi_replace_def alternatives_def getitem_def re_sub_error [of _ _ _ "[]"])

lemma match_here_first:
  "\<forall>k\<in>set (map fst m). k \<noteq> [] \<Longrightarrow> match_here (map fst m) b s = map_option fst (first_match m s)"
  by (induction m) auto

lemma first_match_getitem: "first_match m s = Some (k, v) \<Longrightarrow> getitem m k = Inr v"
proof (induction m)
  case Nil
  then show ?case by simp
next
  case (Cons p m)
  obtain k' v' where p: "p = (k', v')" by (cases p)
  show ?case
  proof (cases "prefix k' s")
    case True
    with Cons.prems p show ?thesis by (simp add: getitem_def)
  next
    case False
    with Cons.prems p have fm: "first_match m s = Some (k, v)" by simp
    then have "prefix k s" by (induction m) (auto split: if_splits)
    with False have "k' \<noteq> k" by auto
    with Cons.IH [OF fm] p show ?thesis by (simp add: getitem_def)
  qed
qed

lemma first_match_nonempty:
  "first_match m s = Some (k, v) \<Longrightarrow> k \<in> set (map fst m)"
  by (induction m) (auto split: if_splits)

lemma first_match_empty: "\<forall>k\<in>set (map fst m). k \<noteq> [] \<Longrightarrow> first_match m [] = None"
  by (induction m) auto

lemma re_sub_scan:
  assumes ne: "\<forall>k\<in>set (map fst m). k \<noteq> []"
  shows "re_sub (map fst m) (getitem m) b s = Inr out \<Longrightarrow> scan_replace m s out"
proof (induction "map fst m" "getitem m" b s arbitrary: out rule: re_sub.induct)
  case (1 b s)
  show ?case
  proof (cases "first_match m s")
    case None
    then have mh: "match_here (map fst m) b s = None" by (simp add: match_here_first [OF ne])
    show ?thesis
    proof (cases s)
      case Nil
      with "1.prems" mh show ?thesis by (simp add: scan_end re_sub_None)
    next
      case (Cons c cs)
      with "1.prems" mh obtain o' where r: "re_sub (map fst m) (getitem m) False cs = Inr o'"
        and out: "out = c # o'"
        by (auto simp: re_sub_None split: sum.splits)
      from "1.hyps"(1) [OF mh Cons r] have "scan_replace m cs o'" .
      with None Cons out show ?thesis by (auto intro: scan_copy)
    qed
  next
    case (Some kv)
    obtain k v where kv: "kv = (k, v)" by (cases kv)
    with Some have fm: "first_match m s = Some (k, v)" by simp
    then have mh: "match_here (map fst m) b s = Some k" by (simp add: match_here_first [OF ne])
    have g: "getitem m k = Inr v" using fm by (rule first_match_getitem)
    have kne: "k \<noteq> []" using first_match_nonempty [OF fm] ne by blast
    from "1.prems" mh g kne obtain o' where
      r: "re_sub (map fst m) (getitem m) False (drop (length k) s) = Inr o'" and out: "out = v @ o'"
      by (auto simp: re_sub_Some [where repl = "getitem m", OF mh kne g] split: sum.splits)
    from "1.hyps"(3) [OF mh g kne r] have "scan_replace m (drop (length k) s) o'" .
    with fm out show ?thesis by (auto intro: scan_match)
  qed
qed

lemma scan_re_sub:
  assumes ne: "\<forall>k\<in>set (map fst m). k \<noteq> []"
  shows "scan_replace m s out \<Longrightarrow> re_sub (map fst m) (getitem m) b s = Inr out"
proof (induction arbitrary: b rule: scan_replace.induct)
  case scan_end
  show ?case by (simp add: re_sub_None match_here_first [OF ne] first_match_empty [OF ne])
next
  case (scan_match s k v out)
  have kne: "k \<noteq> []" using first_match_nonempty [OF scan_match(1)] ne by blast
  have mh: "match_here (map fst m) b s = Some k"
    using scan_match(1) by (simp add: match_here_first [OF ne])
  have g: "getitem m k = Inr v" using scan_match(1) by (rule first_match_getitem)
  show ?case
    by (simp add: re_sub_Some [where repl = "getitem m", OF mh kne g] scan_match(3))
next
  case (scan_copy c s out)
  have mh: "match_here (map fst m) b (c # s) = None"
    using scan_copy(1) by (simp add: match_here_first [OF ne])
  show ?case
    by (simp add: re_sub_None [OF mh] scan_copy(3))
qed

lemma scan_replace_total:
  assumes ne: "\<forall>k\<in>set (map fst m). k \<noteq> []"
  shows "\<exists>out. scan_replace m s out"
proof (induction s rule: length_induct)
  case (1 s)
  show ?case
  proof (cases "first_match m s")
    case None
    show ?thesis
    proof (cases s)
      case Nil
      then show ?thesis using scan_end by blast
    next
      case (Cons c cs)
      with 1 obtain out where "scan_replace m cs out" by auto
      with None Cons show ?thesis using scan_copy by blast
    qed
  next
    case (Some kv)
    obtain k v where kv: "kv = (k, v)" by (cases kv)
    with Some have fm: "first_match m s = Some (k, v)" by simp
    have kne: "k \<noteq> []" using first_match_nonempty [OF fm] ne by blast
    from fm have "prefix k s" by (induction m) (auto split: if_splits)
    with kne have "s \<noteq> []" by auto
    with kne have "length (drop (length k) s) < length s" by (cases k) auto
    with 1 obtain out where "scan_replace m (drop (length k) s) out" by blast
    with fm show ?thesis using scan_match by blast
  qed
qed

lemma empty_key_no_scan:
  "scan_replace m s out \<Longrightarrow> m = [([], x)] \<Longrightarrow> s \<noteq> [] \<Longrightarrow> False"
  by (induction rule: scan_replace.induct) auto

text \<open>
  Claim C6. For every input string, the empty one included, \<open>multi_replace\<close> with an
  empty mapping raises an error (KeyError, the InvalidArgument of the specification):
  the empty pattern matches the empty string at the start and the lookup of that match in
  the empty mapping fails. It never returns the input unchanged.
\<close>

theorem multi_replace_empty_mapping: "multi_replace s [] = Inl KeyError"
  by (rule multi_replace_empty)

text \<open>
  Claim C7, as amended. For every input string and every non-empty mapping whose keys
  are all non-empty, \<open>multi_replace\<close> returns a string, and that string is exactly the
  result of the left-to-right scan of the specification: at a position where a key
  matches, the first such key of the mapping is replaced by its value and the scan
  advances past the key; a position with no match is copied; values are not scanned
  again. So \<open>multi_replace("abc", {"ab": "cd"})\<close> is \<open>"cdc"\<close> and
  \<open>multi_replace("a", {"a": "b", "b": "c"})\<close> is \<open>"b"\<close>.
\<close>

theorem multi_replace_scan:
  "(m \<noteq> [] \<and> (\<forall>k\<in>set (map fst m). k \<noteq> []) \<longrightarrow>
      (\<exists>out. multi_replace s m = Inr out) \<and>
      (\<forall>out. multi_replace s m = Inr out \<longleftrightarrow> scan_replace m s out)) \<and>
   multi_replace (ascii ''abc'') [(ascii ''ab'', ascii ''cd'')] = Inr (ascii ''cdc'') \<and>
   multi_replace (ascii ''a'') [(ascii ''a'', ascii ''b''), (ascii ''b'', ascii ''c'')]
     = Inr (ascii ''b'')"
proof (intro conjI impI)
  assume h: "m \<noteq> [] \<and> (\<forall>k\<in>set (map fst m). k \<noteq> [])"
  then have ne: "\<forall>k\<in>set (map fst m). k \<noteq> []" and mr: "multi_replace s m = re_sub (map fst m) (getitem m) False s"
    by (simp_all add: multi_replace_def alternatives_def)
  from scan_replace_total [OF ne] obtain out where "scan_replace m s out" ..
  then have "multi_replace s m = Inr out" unfolding mr by (rule scan_re_sub [OF ne])
  then show "\<exists>out. multi_replace s m = Inr out" ..
  show "\<forall>out. multi_replace s m = Inr out \<longleftrightarrow> scan_replace m s out"
    unfolding mr using re_sub_scan [OF ne] scan_re_sub [OF ne] by blast
next
  show "multi_replace (ascii ''abc'') [(ascii ''ab'', ascii ''cd'')] = Inr (ascii ''cdc'')"
    by (simp add: multi_replace_def alternatives_def getitem_def ascii_def re_sub.simps)
  show "multi_replace (ascii ''a'') [(ascii ''a'', ascii ''b''), (ascii ''b'', ascii ''c'')]
     = Inr (ascii ''b'')"
    by (simp add: multi_replace_def alternatives_def getitem_def ascii_def re_sub.simps)
qed

theorem multi_replace_scan_witness:
  "[(ascii ''ab'', ascii ''cd'')] \<noteq> [] \<and> ascii ''ab'' \<noteq> [] \<and>
   multi_replace (ascii ''abc'') [(ascii ''ab'', ascii ''cd'')] = Inr (ascii ''cdc'') \<and>
   scan_replace [(ascii ''ab'', ascii ''cd'')] (ascii ''abc'') (ascii ''cdc'')"
proof -
  have a: "[(ascii ''ab'', ascii ''cd'')] \<noteq> [] \<and>
    (\<forall>k\<in>set (map fst [(ascii ''ab'', ascii ''cd'')]). k \<noteq> [])"
    by (simp add: ascii_def)
  have b: "ascii ''ab'' \<noteq> []" by (simp add: ascii_def)
  from multi_replace_scan [of "[(ascii ''ab'', ascii ''cd'')]" "ascii ''abc''"] a b
  show ?thesis by blast
qed

text \<open>
  Claim C7 as stated fails for a mapping with the empty string as key: the empty key
  matches at every position and advancing past it makes no progress, so the scan of the
  claim yields no output; \<open>multi_replace("a", {"": "X"})\<close> returns \<open>"XaX"\<close>.
\<close>

theorem multi_replace_scan_counterexample:
  "[([], ascii ''X'')] \<noteq> [] \<and> distinct (map fst [([], ascii ''X'')]) \<and>
   multi_replace (ascii ''a'') [([], ascii ''X'')] = Inr (ascii ''XaX'') \<and>
   \<not> scan_replace [([], ascii ''X'')] (ascii ''a'') (ascii ''XaX'')"
proof -
  have "multi_replace (ascii ''a'') [([], ascii ''X'')] = Inr (ascii ''XaX'')"
    by (simp add: multi_replace_def alternatives_def getitem_def ascii_def re_sub.simps)
  moreover have "\<not> scan_replace [([], ascii ''X'')] (ascii ''a'') (ascii ''XaX'')"
    using empty_key_no_scan [of "[([], ascii ''X'')]" "ascii ''a''" "ascii ''XaX''" "ascii ''X''"]
    by (auto simp: ascii_def)
  ultimately show ?thesis by simp
qed

section \<open>Similarity\<close>

lemma index_elt_apply:
  "index_elt m (n, y) x =
     (if x = y then Some ((case m y of None \<Rightarrow> [] | Some l \<Rightarrow> l) @ [n]) else m x)"
  by (simp add: index_elt_def)

lemma filter_upt_snoc:
  "filter (\<lambda>j. (xs @ [y]) ! j = x) [0..<Suc (length xs)]
     = filter (\<lambda>j. xs ! j = x) [0..<length xs] @ (if y = x then [length xs] else [])"
proof -
  have "filter (\<lambda>j. (xs @ [y]) ! j = x) [0..<length xs] = filter (\<lambda>j. xs ! j = x) [0..<length xs]"
    by (rule filter_cong) (auto simp: nth_append)
  then show ?thesis by simp
qed

lemma filter_absent: "x \<notin> set xs \<Longrightarrow> filter (\<lambda>j. xs ! j = x) [0..<length xs] = []"
  by (auto simp: filter_empty_conv)

lemma raw_b2j:
  "foldl index_elt Map.empty (enumerate 0 b) x =
     (if x \<in> set b then Some (filter (\<lambda>j. b ! j = x) [0..<length b]) else None)"
proof (induction b arbitrary: x rule: rev_induct)
  case Nil
  show ?case by simp
next
  case (snoc y xs)
  have e: "enumerate 0 (xs @ [y]) = enumerate 0 xs @ [(length xs, y)]"
    by (simp add: enumerate_append_eq)
  show ?case
    unfolding e foldl_append
    by (simp add: index_elt_apply snoc.IH filter_upt_snoc filter_absent del: upt_Suc)
qed

lemma chain_b_Some:
  assumes "chain_b b x = Some idxs"
  shows "idxs = filter (\<lambda>j. b ! j = x) [0..<length b]"
  using assms by (auto simp: chain_b_def Let_def raw_b2j split: if_splits)

lemma chain_b_sorted:
  assumes "chain_b b x = Some idxs"
  shows "sorted idxs \<and> distinct idxs"
proof -
  have "sorted (filter (\<lambda>j. b ! j = x) [0..<length b])"
    using sorted_wrt_filter [of "(\<le>)" "[0..<length b]" "\<lambda>j. b ! j = x"] by simp
  with chain_b_Some [OF assms] show ?thesis by simp
qed

lemma chain_b_set: "chain_b b x = Some idxs \<Longrightarrow> set idxs = {j. j < length b \<and> b ! j = x}"
  by (drule chain_b_Some) auto

lemma run_at_le: "run_at b p \<le> p + 1"
  by (induction p) auto

lemma scan_row_diag:
  assumes i: "i < length a" and ix: "indexed a (a ! i)"
    and P1: "\<forall>j v. prev j = Some v \<longrightarrow>
               v \<le> run_at a j \<and> v \<le> (if i = 0 then 0 else run_at a (i - 1))"
    and P2: "0 < i \<longrightarrow> (case prev (i - 1) of None \<Rightarrow> 0 | Some v \<Rightarrow> v) = run_at a (i - 1)"
  shows "sorted js \<Longrightarrow> distinct js \<Longrightarrow> \<forall>j\<in>set js. j < length a \<and> a ! j = a ! i \<Longrightarrow>
     bi = bj \<Longrightarrow> bi + bs \<le> i + 1 \<Longrightarrow> \<forall>p<i. run_at a p \<le> bs \<Longrightarrow>
     i \<in> set js \<or> ((\<forall>j\<in>set js. i < j) \<and> run_at a i \<le> bs \<and> new i = Some (run_at a i)) \<Longrightarrow>
     \<forall>j v. new j = Some v \<longrightarrow> v \<le> run_at a j \<and> v \<le> run_at a i \<Longrightarrow>
     scan_row i 0 (length a) prev js (new, bi, bj, bs) = (new', bi', bj', bs') \<Longrightarrow>
     bi' = bj' \<and> bi' + bs' \<le> i + 1 \<and> bs \<le> bs' \<and> run_at a i \<le> bs' \<and>
     new' i = Some (run_at a i) \<and> (\<forall>j v. new' j = Some v \<longrightarrow> v \<le> run_at a j \<and> v \<le> run_at a i)"
proof (induction js arbitrary: new bi bj bs)
  case Nil
  then show ?case by auto
next
  case (Cons j js)
  define pv where "pv = (if j = 0 then 0 else case prev (j - 1) of None \<Rightarrow> 0 | Some v \<Rightarrow> v)"
  define k where "k = pv + 1"
  from Cons.prems(3) have jn: "j < length a" and aj: "a ! j = a ! i" by auto
  have ixj: "indexed a (a ! j)" using ix aj by simp
  have run_i: "run_at a i = (if i = 0 then 0 else run_at a (i - 1)) + 1"
    using ix by (cases i) auto
  have run_j: "run_at a j = (if j = 0 then 0 else run_at a (j - 1)) + 1"
    using ixj by (cases j) auto
  have pv_j: "pv \<le> (if j = 0 then 0 else run_at a (j - 1))"
    using P1 by (auto simp: pv_def split: option.splits)
  have pv_i: "pv \<le> (if i = 0 then 0 else run_at a (i - 1))"
    using P1 by (auto simp: pv_def split: option.splits)
  have kj: "k \<le> run_at a j" using pv_j run_j by (simp add: k_def)
  have ki: "k \<le> run_at a i" using pv_i run_i by (simp add: k_def)
  have keq: "k = run_at a i" if "j = i"
    using that P2 run_i by (cases "i = 0") (auto simp: k_def pv_def)
  have srt: "sorted js" "distinct js" "\<forall>j\<in>set js. j < length a \<and> a ! j = a ! i"
    using Cons.prems(1,2,3) by auto
  have later: "\<forall>x\<in>set js. j < x"
    using Cons.prems(1,2) by (auto simp: le_less)
  have N1: "\<forall>j' v. (new(j \<mapsto> k)) j' = Some v \<longrightarrow> v \<le> run_at a j' \<and> v \<le> run_at a i"
    using Cons.prems(8) kj ki by auto
  have step: "scan_row i 0 (length a) prev (j # js) (new, bi, bj, bs) =
      (if k > bs then scan_row i 0 (length a) prev js (new(j \<mapsto> k), i + 1 - k, j + 1 - k, k)
       else scan_row i 0 (length a) prev js (new(j \<mapsto> k), bi, bj, bs))"
    using jn by (simp add: Let_def k_def pv_def)
  consider (before) "j < i" | (diag) "j = i" | (after) "i < j" by linarith
  then show ?case
  proof cases
    case before
    with Cons.prems(7) have mem: "i \<in> set js" by auto
    from before Cons.prems(6) kj have "\<not> k > bs" by (meson le_trans not_less)
    with step Cons.prems(9)
    have r: "scan_row i 0 (length a) prev js (new(j \<mapsto> k), bi, bj, bs) = (new', bi', bj', bs')"
      by simp
    show ?thesis
      by (rule Cons.IH [OF srt Cons.prems(4,5,6) _ N1 r]) (simp add: mem)
  next
    case diag
    have k: "k = run_at a i" using keq diag by simp
    have all_later: "\<forall>x\<in>set js. i < x" using later diag by simp
    show ?thesis
    proof (cases "k > bs")
      case True
      with step Cons.prems(9)
      have r: "scan_row i 0 (length a) prev js (new(j \<mapsto> k), i + 1 - k, j + 1 - k, k)
          = (new', bi', bj', bs')"
        by simp
      have kle: "k \<le> i + 1" using k run_at_le [of a i] by simp
      have "bi' = bj' \<and> bi' + bs' \<le> i + 1 \<and> k \<le> bs' \<and> run_at a i \<le> bs' \<and>
         new' i = Some (run_at a i) \<and> (\<forall>j v. new' j = Some v \<longrightarrow> v \<le> run_at a j \<and> v \<le> run_at a i)"
      proof (rule Cons.IH [OF srt _ _ _ _ N1 r])
        show "i + 1 - k = j + 1 - k" using diag by simp
        show "i + 1 - k + k \<le> i + 1" using kle by simp
        show "\<forall>p<i. run_at a p \<le> k" using Cons.prems(6) True by (meson le_trans less_imp_le)
        show "i \<in> set js \<or> (\<forall>j\<in>set js. i < j) \<and> run_at a i \<le> k
            \<and> (new(j \<mapsto> k)) i = Some (run_at a i)"
          using all_later k diag by simp
      qed
      with True show ?thesis by auto
    next
      case False
      with step Cons.prems(9)
      have r: "scan_row i 0 (length a) prev js (new(j \<mapsto> k), bi, bj, bs) = (new', bi', bj', bs')"
        by simp
      show ?thesis
      proof (rule Cons.IH [OF srt Cons.prems(4,5,6) _ N1 r])
        show "i \<in> set js \<or> (\<forall>j\<in>set js. i < j) \<and> run_at a i \<le> bs
            \<and> (new(j \<mapsto> k)) i = Some (run_at a i)"
          using all_later k diag False by simp
      qed
    qed
  next
    case after
    have "i \<notin> set (j # js)" using after later by auto
    with Cons.prems(7) have fin: "run_at a i \<le> bs" "new i = Some (run_at a i)" by auto
    have all_later: "\<forall>x\<in>set js. i < x" using later after by auto
    from ki fin(1) have "\<not> k > bs" by simp
    with step Cons.prems(9)
    have r: "scan_row i 0 (length a) prev js (new(j \<mapsto> k), bi, bj, bs) = (new', bi', bj', bs')"
      by simp
    show ?thesis
    proof (rule Cons.IH [OF srt Cons.prems(4,5,6) _ N1 r])
      show "i \<in> set js \<or> (\<forall>j\<in>set js. i < j) \<and> run_at a i \<le> bs
          \<and> (new(j \<mapsto> k)) i = Some (run_at a i)"
        using all_later fin after by simp
    qed
  qed
qed

lemma scan_rows_diag:
  "i \<le> length a \<Longrightarrow>
   \<forall>j v. prev j = Some v \<longrightarrow> v \<le> run_at a j \<and> v \<le> (if i = 0 then 0 else run_at a (i - 1)) \<Longrightarrow>
   0 < i \<longrightarrow> (case prev (i - 1) of None \<Rightarrow> 0 | Some v \<Rightarrow> v) = run_at a (i - 1) \<Longrightarrow>
   bi = bj \<Longrightarrow> bi + bs \<le> i \<Longrightarrow> \<forall>p<i. run_at a p \<le> bs \<Longrightarrow>
   scan_rows a (chain_b a) 0 (length a) [i..<length a] (prev, (bi, bj, bs)) = (bi', bj', bs') \<Longrightarrow>
   bi' = bj' \<and> bi' + bs' \<le> length a"
proof (induction "length a - i" arbitrary: i prev bi bj bs)
  case 0
  then show ?case by simp
next
  case (Suc d)
  then have i: "i < length a" by simp
  define js where "js = (case chain_b a (a ! i) of None \<Rightarrow> [] | Some idxs \<Rightarrow> idxs)"
  obtain new' ci cj cs where
    r: "scan_row i 0 (length a) prev js (Map.empty, (bi, bj, bs)) = (new', ci, cj, cs)"
    by (metis prod_cases4)
  have up: "[i..<length a] = i # [Suc i..<length a]" using i by (simp add: upt_conv_Cons)
  have rest: "scan_rows a (chain_b a) 0 (length a) [Suc i..<length a] (new', (ci, cj, cs))
      = (bi', bj', bs')"
    using Suc.prems(7) unfolding up by (simp add: js_def [symmetric] r)
  have d: "d = length a - Suc i" using Suc.hyps(2) by simp
  have inv: "(\<forall>j v. new' j = Some v \<longrightarrow> v \<le> run_at a j \<and> v \<le> run_at a i) \<and>
      (case new' i of None \<Rightarrow> 0 | Some v \<Rightarrow> v) = run_at a i \<and>
      ci = cj \<and> ci + cs \<le> Suc i \<and> (\<forall>p<Suc i. run_at a p \<le> cs)"
  proof (cases "chain_b a (a ! i)")
    case None
    then have "js = []" by (simp add: js_def)
    with r have e: "new' = Map.empty" "ci = bi" "cj = bj" "cs = bs" by auto
    from None have "\<not> indexed a (a ! i)" by (simp add: indexed_def)
    then have z: "run_at a i = 0" by (cases i) auto
    from Suc.prems(6) z have "\<forall>p<Suc i. run_at a p \<le> bs" by (auto simp: less_Suc_eq)
    with e z Suc.prems(4,5) show ?thesis by simp
  next
    case (Some idxs)
    then have js: "js = idxs" by (simp add: js_def)
    have ix: "indexed a (a ! i)" using Some by (simp add: indexed_def)
    have s: "sorted js" "distinct js" using chain_b_sorted [OF Some] js by simp_all
    have m: "\<forall>j\<in>set js. j < length a \<and> a ! j = a ! i" using chain_b_set [OF Some] js by simp
    have mem: "i \<in> set js" using chain_b_set [OF Some] js i by simp
    have c: "ci = cj \<and> ci + cs \<le> i + 1 \<and> bs \<le> cs \<and> run_at a i \<le> cs \<and>
       new' i = Some (run_at a i) \<and> (\<forall>j v. new' j = Some v \<longrightarrow> v \<le> run_at a j \<and> v \<le> run_at a i)"
    proof (rule scan_row_diag [OF i ix Suc.prems(2,3) s m Suc.prems(4) _ Suc.prems(6) _ _ r])
      show "bi + bs \<le> i + 1" using Suc.prems(5) by simp
      show "i \<in> set js \<or> (\<forall>j\<in>set js. i < j) \<and> run_at a i \<le> bs \<and> Map.empty i = Some (run_at a i)"
        using mem by simp
      show "\<forall>j v. Map.empty j = Some v \<longrightarrow> v \<le> run_at a j \<and> v \<le> run_at a i" by simp
    qed
    then have "\<forall>p<Suc i. run_at a p \<le> cs"
      using Suc.prems(6) by (auto simp: less_Suc_eq intro: le_trans)
    with c show ?thesis by simp
  qed
  show ?case
  proof (rule Suc.hyps(1) [OF d _ _ _ _ _ _ rest])
    show "Suc i \<le> length a" using i by simp
    show "\<forall>j v. new' j = Some v \<longrightarrow>
        v \<le> run_at a j \<and> v \<le> (if Suc i = 0 then 0 else run_at a (Suc i - 1))"
      using inv by simp
    show "0 < Suc i \<longrightarrow> (case new' (Suc i - 1) of None \<Rightarrow> 0 | Some v \<Rightarrow> v) = run_at a (Suc i - 1)"
      using inv by simp
    show "ci = cj" using inv by simp
    show "ci + cs \<le> Suc i" using inv by simp
    show "\<forall>p<Suc i. run_at a p \<le> cs" using inv by simp
  qed
qed

lemma extend_left_diag: "extend_left a a 0 0 (bi, bi, bs) = (0, 0, bs + bi)"
proof (induction bi arbitrary: bs)
  case 0
  show ?case by (subst extend_left.simps) simp
next
  case (Suc bi)
  show ?case by (subst extend_left.simps) (simp add: Suc)
qed

lemma extend_right_diag: "s \<le> n \<Longrightarrow> extend_right a a n n (0, 0, s) = (0, 0, n)"
proof (induction "n - s" arbitrary: s)
  case 0
  then show ?case by (subst extend_right.simps) simp
next
  case (Suc d)
  then have "extend_right a a n n (0, 0, s + 1) = (0, 0, n)" by simp
  moreover from Suc.hyps(2) have "s < n" by simp
  ultimately show ?case by (subst extend_right.simps) simp
qed

lemma find_longest_match_self:
  "find_longest_match a a (chain_b a) 0 (length a) 0 (length a) = (0, 0, length a)"
proof -
  obtain bi bj bs where
    r: "scan_rows a (chain_b a) 0 (length a) [0..<length a] (Map.empty, (0, 0, 0)) = (bi, bj, bs)"
    by (metis prod_cases3)
  have "bi = bj \<and> bi + bs \<le> length a"
    by (rule scan_rows_diag [OF _ _ _ _ _ _ r]) simp_all
  then show ?thesis
    by (simp add: find_longest_match_def r extend_left_diag extend_right_diag)
qed

lemma matching_loop_self:
  "matching_loop a a (chain_b a) [(0, length a, 0, length a)] []
     = Some (if a = [] then [] else [(0, 0, length a)])"
  by (subst matching_loop.simps, simp add: find_longest_match_self)
     (subst matching_loop.simps, simp)+

lemma round3_one: "round3 1 = 1"
  by (simp add: round3_def Let_def)

text \<open>
  Claim C4. \<open>similarity\<close> is reflexive: for every string \<open>a\<close>, of any length and
  content, \<open>similarity(a, a)\<close> returns, and returns 1.0; so does
  \<open>similarity("", "")\<close>. The longest match of a string with itself is the whole string,
  also when the popular elements of a long string are left out of the index.
\<close>

theorem similarity_reflexive:
  "similarity a a = Some 1 \<and> similarity [] [] = Some 1"
proof -
  have g: "get_matching_blocks s s
      = Some ((if s = [] then [] else [(0, 0, length s)]) @ [(length s, length s, 0)])" for s
    by (simp add: get_matching_blocks_def matching_loop_self)
  have "ratio s s = Some 1" for s
    by (simp add: ratio_def g calculate_ratio_def)
  then have "similarity s s = Some 1" for s
    by (simp add: similarity_def round3_one)
  then show ?thesis by simp
qed

text \<open>
  Claim C5. The claim is that \<open>similarity\<close> is symmetric, \<open>similarity(a, b)\<close> equal to
  \<open>similarity(b, a)\<close> for every pair of strings. The code is not: the matcher looks for
  the longest block from the side of its first argument and takes the first one among
  equally long blocks, so the blocks found depend on the order of the arguments.
  \<open>similarity("tide", "diet")\<close> is 0.25 and \<open>similarity("diet", "tide")\<close> is 0.5.
\<close>

theorem similarity_order_matters:
  "similarity (ascii ''tide'') (ascii ''diet'') = Some (1 / 4) \<and>
   similarity (ascii ''diet'') (ascii ''tide'') = Some (1 / 2) \<and>
   similarity (ascii ''tide'') (ascii ''diet'') \<noteq> similarity (ascii ''diet'') (ascii ''tide'')"
proof -
  have a: "similarity (ascii ''tide'') (ascii ''diet'') = Some (1 / 4)" by code_simp
  have b: "similarity (ascii ''diet'') (ascii ''tide'') = Some (1 / 2)" by code_simp
  from a b show ?thesis by simp
qed

section \<open>Masking\<close>

lemma mask_email_ValueError_iff: "mask_email e = Inl ValueError \<longleftrightarrow> count_list e 64 \<noteq> 1"
proof -
  have len: "length (split_where (\<lambda>c. c = 64) e) = Suc (count_list e 64)"
    by (simp add: length_split_where count_list_filter)
  show ?thesis
  proof (cases "split_where (\<lambda>c. c = 64) e")
    case Nil
    then show ?thesis using split_where_not_Nil by blast
  next
    case (Cons p ps)
    note c1 = this
    show ?thesis
    proof (cases ps)
      case Nil
      with c1 len show ?thesis by (simp add: mask_email_def)
    next
      case (Cons q qs)
      with c1 len show ?thesis
        by (cases qs; cases p) (auto simp: mask_email_def)
    qed
  qed
qed

lemma mask_email_parts:
  assumes "64 \<notin> set n" "64 \<notin> set d"
  shows "mask_email (n @ [64] @ d) =
     (case n of [] \<Rightarrow> Inl IndexError | c # _ \<Rightarrow> Inr (c # ascii ''***@'' @ d))"
proof -
  have "split_where (\<lambda>c. c = 64) d = [d]"
    using assms(2) by (intro split_where_no_sep) auto
  moreover have "split_where (\<lambda>c. c = 64) (n @ 64 # d) = n # split_where (\<lambda>c. c = 64) d"
    using assms(1) by (intro split_where_append) auto
  ultimately have "split_where (\<lambda>c. c = 64) (n @ [64] @ d) = [n, d]" by simp
  then show ?thesis by (cases n) (simp_all add: mask_email_def)
qed

text \<open>
  Claim C8. \<open>mask_email\<close> raises ValueError (the spec's InvalidFormat) exactly when the
  input does not hold exactly one \<open>@\<close> (code point 64). With exactly one \<open>@\<close>, that is
  for an input \<open>n @ "@" @ d\<close> with no \<open>@\<close> in \<open>n\<close> or \<open>d\<close>: a non-empty local part \<open>n\<close>
  gives its first character, then \<open>***@\<close>, then the domain \<open>d\<close> unchanged, and an empty
  local part fails with IndexError. So \<open>mask_email("j@example.com")\<close> is
  \<open>"j***@example.com"\<close>.
\<close>

theorem mask_email_spec:
  "(mask_email e = Inl ValueError \<longleftrightarrow> count_list e 64 \<noteq> 1) \<and>
   (64 \<notin> set n \<and> 64 \<notin> set d \<longrightarrow>
      mask_email (n @ [64] @ d) =
        (case n of [] \<Rightarrow> Inl IndexError | c # _ \<Rightarrow> Inr (c # ascii ''***@'' @ d))) \<and>
   mask_email (ascii ''j@example.com'') = Inr (ascii ''j***@example.com'')"
proof (intro conjI impI)
  show "mask_email e = Inl ValueError \<longleftrightarrow> count_list e 64 \<noteq> 1"
    by (rule mask_email_ValueError_iff)
next
  assume "64 \<notin> set n \<and> 64 \<notin> set d"
  then show "mask_email (n @ [64] @ d) =
        (case n of [] \<Rightarrow> Inl IndexError | c # _ \<Rightarrow> Inr (c # ascii ''***@'' @ d))"
    using mask_email_parts [of n d] by simp
next
  show "mask_email (ascii ''j@example.com'') = Inr (ascii ''j***@example.com'')"
    by (simp add: mask_email_def ascii_def)
qed

theorem mask_email_spec_witness:
  "count_list (ascii ''a@b@c'') 64 \<noteq> 1 \<and> mask_email (ascii ''a@b@c'') = Inl ValueError \<and>
   64 \<notin> set (ascii ''john'') \<and> 64 \<notin> set (ascii ''example.com'') \<and>
   mask_email (ascii ''john'' @ [64] @ ascii ''example.com'') = Inr (ascii ''j***@example.com'') \<and>
   mask_email ([] @ [64] @ ascii ''example.com'') = Inl IndexError"
  using mask_email_spec [of "ascii ''a@b@c''" "ascii ''john''" "ascii ''example.com''"]
    mask_email_spec [of "[]" "[]" "ascii ''example.com''"]
  by (simp add: ascii_def)

lemma mask_phone_eq:
  "mask_phone p = replicate (length p - 4) 42 @ drop (length p - 4) p"
proof -
  have "str_mul (ascii ''*'') (int (length p) - 4) = replicate (length p - 4) 42"
  proof -
    have "nat (int (length p) - 4) = length p - 4" by simp
    moreover have "concat (replicate k [42::nat]) = replicate k 42" for k
      by (induction k) auto
    ultimately show ?thesis by (simp add: str_mul_def ascii_def)
  qed
  moreover have "slice_from (- 4) p = drop (length p - 4) p"
    by (auto simp: slice_from_def Let_def max_def nat_diff_distrib')
  ultimately show ?thesis by (simp add: mask_phone_def)
qed

text \<open>
  Claim C9. For every string \<open>p\<close> of any code points, \<open>mask_phone p\<close> is the asterisk
  (code point 42) repeated \<open>max(0, len(p) - 4)\<close> times followed by the last
  \<open>min(4, len(p))\<close> characters of \<open>p\<close>. The output is as long as \<open>p\<close>; its last four
  characters are those of \<open>p\<close> when \<open>p\<close> has at least four; and a \<open>p\<close> of at most four
  characters is returned unchanged.
\<close>

theorem mask_phone_spec:
  "mask_phone p =
     replicate (nat (max 0 (int (length p) - 4))) 42 @ rev (take (min 4 (length p)) (rev p)) \<and>
   length (mask_phone p) = length p \<and>
   (4 \<le> length p \<longrightarrow> slice_from (- 4) (mask_phone p) = slice_from (- 4) p) \<and>
   (length p \<le> 4 \<longrightarrow> mask_phone p = p)"
proof -
  have e: "mask_phone p = replicate (length p - 4) 42 @ drop (length p - 4) p"
    by (rule mask_phone_eq)
  have a: "nat (max 0 (int (length p) - 4)) = length p - 4" by (simp add: max_def nat_diff_distrib')
  have b: "rev (take (min 4 (length p)) (rev p)) = drop (length p - 4) p"
    by (simp add: take_rev min_def)
  have c: "length (mask_phone p) = length p" by (simp add: e)
  have d: "slice_from (- 4) (mask_phone p) = slice_from (- 4) p" if "4 \<le> length p"
    using that by (simp add: slice_from_def Let_def c max_def) (simp add: e nat_diff_distrib')
  have f: "mask_phone p = p" if "length p \<le> 4" using that by (simp add: e)
  from e a b c d f show ?thesis by simp
qed

theorem mask_phone_spec_witness:
  "4 \<le> length (ascii ''5551234567'') \<and>
   mask_phone (ascii ''5551234567'') = ascii ''******4567'' \<and>
   length (ascii ''567'') \<le> 4 \<and> mask_phone (ascii ''567'') = ascii ''567''"
  using mask_phone_spec [of "ascii ''5551234567''"] mask_phone_spec [of "ascii ''567''"]
  by (simp add: ascii_def eval_nat_numeral)

end
